theory Spec2Isabelle
  imports Complex_Main "HOL-Library.Multiset"
begin

section \<open>The automaton container used by the builder\<close>

text \<open>
  \<^verbatim>\<open>boosting_fst_lib.py\<close> drives a mutable \<^verbatim>\<open>pywrapfst.VectorFst\<close>: a vector of states,
  each with a final weight and a vector of outgoing arcs, plus a start state. Only the
  calls the builder makes are modelled. State ids are positions in the vector. The start
  state is \<open>None\<close> while unset (the library's \<^verbatim>\<open>-1\<close>). A final weight is \<open>None\<close> for
  \<^verbatim>\<open>float("inf")\<close> (the state is not final) and \<open>Some w\<close> for a finite cost. Weights are
  real numbers: the Python float expression is read as the real expression it denotes.
  Every mutator that takes a state id raises \<^verbatim>\<open>FstIndexError\<close> on an id that is not a
  state.
\<close>

record arc =
  ilabel :: int
  olabel :: int
  weight :: real
  nextstate :: nat

record fst_state =
  final_weight :: "real option"
  arcs :: "arc list"

record vector_fst =
  start :: "nat option"
  states :: "fst_state list"

text \<open>
  The exceptions of the program. \<open>KeyError\<close> carries the missing key. \<open>LoadError\<close>
  stands for whatever \<^verbatim>\<open>np.loadtxt\<close> raises on a table it cannot parse.
  \<open>VocabularyError\<close> is the error class the specification names; no statement of the
  source raises it.
\<close>

datatype error = KeyError string | LoadError | FstIndexError | VocabularyError

definition VectorFst :: vector_fst where
  "VectorFst = \<lparr>start = None, states = []\<rparr>"

definition num_states :: "vector_fst \<Rightarrow> nat" where
  "num_states f = length (states f)"

definition add_state :: "vector_fst \<Rightarrow> vector_fst \<times> nat" where
  "add_state f =
     (f\<lparr>states := states f @ [\<lparr>final_weight = None, arcs = []\<rparr>]\<rparr>, length (states f))"

definition set_start :: "vector_fst \<Rightarrow> nat \<Rightarrow> error + vector_fst" where
  "set_start f s =
     (if s < length (states f) then Inr (f\<lparr>start := Some s\<rparr>) else Inl FstIndexError)"

definition add_arc :: "vector_fst \<Rightarrow> nat \<Rightarrow> arc \<Rightarrow> error + vector_fst" where
  "add_arc f s a =
     (if s < length (states f)
      then Inr (f\<lparr>states := (states f)[s := (states f ! s)\<lparr>arcs := arcs (states f ! s) @ [a]\<rparr>]\<rparr>)
      else Inl FstIndexError)"

definition set_final :: "vector_fst \<Rightarrow> nat \<Rightarrow> real option \<Rightarrow> error + vector_fst" where
  "set_final f s w =
     (if s < length (states f)
      then Inr (f\<lparr>states := (states f)[s := (states f ! s)\<lparr>final_weight := w\<rparr>]\<rparr>)
      else Inl FstIndexError)"

definition final :: "vector_fst \<Rightarrow> nat \<Rightarrow> error + real option" where
  "final f s =
     (if s < length (states f) then Inr (final_weight (states f ! s)) else Inl FstIndexError)"

section \<open>Builder construction\<close>

text \<open>
  \<^verbatim>\<open>BoostingFstBuilder.__init__\<close>. Reading and parsing \<^verbatim>\<open>words.txt\<close> belongs to
  \<^verbatim>\<open>np.loadtxt\<close>; its outcome is the argument: the error it raised, or the rows
  \<open>(word, id)\<close> in file order. The dict comprehension keeps the last row of a repeated
  word. \<^verbatim>\<open>del d["<eps>"]\<close> and \<^verbatim>\<open>d["#0"]\<close> raise \<^verbatim>\<open>KeyError\<close> on a missing key.
\<close>

record builder =
  word_to_int :: "string \<rightharpoonup> int"
  rho_int :: int

definition builder_init :: "error + (string \<times> int) list \<Rightarrow> error + builder" where
  "builder_init loaded =
     (case loaded of
        Inl e \<Rightarrow> Inl e
      | Inr rows \<Rightarrow>
          (let d = map_of (rev rows) in
           if d ''<eps>'' = None then Inl (KeyError ''<eps>'')
           else
             (let d1 = d(''<eps>'' := None) in
              case d1 ''#0'' of
                None \<Rightarrow> Inl (KeyError ''#0'')
              | Some rho \<Rightarrow> Inr \<lparr>word_to_int = d1(''#0'' := None), rho_int = rho\<rparr>)))"

section \<open>Raw prefix automaton\<close>

text \<open>
  \<^verbatim>\<open>BoostingFstBuilder.__gen_initial_graph\<close>. A warning of \<^verbatim>\<open>logging.warning\<close> is kept
  as the pair of the two lists its message prints: the out-of-vocabulary words and the
  skipped phrase. The result is the warnings logged so far together with the automaton or
  the exception that ended the call.
\<close>

type_synonym warning = "string list \<times> string list"

text \<open>The inner \<^verbatim>\<open>for w in w_rest\<close> loop; it returns the automaton and \<^verbatim>\<open>s_prev\<close>.\<close>

fun prefix_loop :: "vector_fst \<Rightarrow> nat \<Rightarrow> int list \<Rightarrow> error + (vector_fst \<times> nat)" where
  "prefix_loop f s_prev [] = Inr (f, s_prev)"
| "prefix_loop f s_prev (w # w_rest) =
     (case add_state f of
        (f1, s_next) \<Rightarrow>
          (case add_arc f1 s_prev \<lparr>ilabel = w, olabel = w, weight = 0, nextstate = s_next\<rparr> of
             Inl e \<Rightarrow> Inl e
           | Inr f2 \<Rightarrow> prefix_loop f2 s_next w_rest))"

text \<open>
  The body of the phrase loop from \<^verbatim>\<open>*w_rest, w_last = boosted_phrase_ints\<close> on, for a
  non-empty id sequence.
\<close>

definition boost_phrase ::
  "vector_fst \<Rightarrow> nat \<Rightarrow> int list \<Rightarrow> real \<Rightarrow> real \<Rightarrow> error + vector_fst" where
  "boost_phrase f s_start boosted_phrase_ints word_discount phrase_discount =
     (let w_rest = butlast boosted_phrase_ints; w_last = last boosted_phrase_ints in
      case prefix_loop f s_start w_rest of
        Inl e \<Rightarrow> Inl e
      | Inr (f1, s_prev) \<Rightarrow>
          (let weight = real (length boosted_phrase_ints) * word_discount + phrase_discount in
           case add_state f1 of
             (f2, s_next) \<Rightarrow>
               (case add_arc f2 s_prev
                       \<lparr>ilabel = w_last, olabel = w_last, weight = weight, nextstate = s_next\<rparr> of
                  Inl e \<Rightarrow> Inl e
                | Inr f3 \<Rightarrow> set_final f3 s_next (Some 0))))"

text \<open>
  The \<^verbatim>\<open>for boosted_phrase in boosted_phrases\<close> loop. \<open>those (map word_to_int p)\<close> is the
  list comprehension: \<open>None\<close> when a lookup raises \<^verbatim>\<open>KeyError\<close>, which the \<^verbatim>\<open>except\<close>
  clause turns into a warning and \<^verbatim>\<open>continue\<close>.
\<close>

fun phrase_loop ::
  "(string \<rightharpoonup> int) \<Rightarrow> real \<Rightarrow> real \<Rightarrow> nat \<Rightarrow> warning list \<Rightarrow> vector_fst \<Rightarrow> string list list
     \<Rightarrow> warning list \<times> (error + vector_fst)" where
  "phrase_loop w2i wd pd s_start logged f [] = (logged, Inr f)"
| "phrase_loop w2i wd pd s_start logged f (boosted_phrase # rest) =
     (case those (map w2i boosted_phrase) of
        None \<Rightarrow>
          phrase_loop w2i wd pd s_start
            (logged @ [(filter (\<lambda>w. w2i w = None) boosted_phrase, boosted_phrase)]) f rest
      | Some boosted_phrase_ints \<Rightarrow>
          if length boosted_phrase_ints = 0 then phrase_loop w2i wd pd s_start logged f rest
          else
            (case boost_phrase f s_start boosted_phrase_ints wd pd of
               Inl e \<Rightarrow> (logged, Inl e)
             | Inr f' \<Rightarrow> phrase_loop w2i wd pd s_start logged f' rest))"

definition gen_initial_graph ::
  "string list list \<Rightarrow> (string \<rightharpoonup> int) \<Rightarrow> real \<Rightarrow> real \<Rightarrow> warning list \<times> (error + vector_fst)" where
  "gen_initial_graph boosted_phrases w2i word_discount phrase_discount =
     (case add_state VectorFst of
        (f, s_start) \<Rightarrow>
          (case set_start f s_start of
             Inl e \<Rightarrow> ([], Inl e)
           | Inr f1 \<Rightarrow> phrase_loop w2i word_discount phrase_discount s_start [] f1 boosted_phrases))"

section \<open>The boosting graph\<close>

text \<open>
  \<^verbatim>\<open>BoostingFstBuilder.lattice_boosting_graph\<close>. \<^verbatim>\<open>fst.determinize\<close> is a function of the
  automaton library, not of this program: it is the parameter \<open>determinize\<close>, and the
  theorems below say what they need of it.

  The loop \<^verbatim>\<open>for s in range(f.num_states())\<close>:
\<close>

fun eps_loop :: "vector_fst \<Rightarrow> nat \<Rightarrow> nat list \<Rightarrow> error + vector_fst" where
  "eps_loop f s_start [] = Inr f"
| "eps_loop f s_start (s # rest) =
     (if s \<noteq> s_start then
        (case add_arc f s \<lparr>ilabel = 0, olabel = 0, weight = 0, nextstate = s_start\<rparr> of
           Inl e \<Rightarrow> Inl e
         | Inr f1 \<Rightarrow>
             (case final f1 s of
                Inl e \<Rightarrow> Inl e
              | Inr w \<Rightarrow>
                  if w \<noteq> None then
                    (case set_final f1 s None of
                       Inl e \<Rightarrow> Inl e
                     | Inr f2 \<Rightarrow> eps_loop f2 s_start rest)
                  else eps_loop f1 s_start rest))
      else eps_loop f s_start rest)"

text \<open>
  When the determinized automaton has no start state, \<^verbatim>\<open>f.start()\<close> is \<^verbatim>\<open>-1\<close>: the loop
  then adds its arcs to every state, and \<^verbatim>\<open>f.set_final(-1, 0.0)\<close> raises
  \<^verbatim>\<open>FstIndexError\<close>, so the call ends with that exception whatever the loop did.
\<close>

definition lattice_boosting_graph ::
  "(vector_fst \<Rightarrow> vector_fst) \<Rightarrow> builder \<Rightarrow> string list list \<Rightarrow> real \<Rightarrow> real
     \<Rightarrow> warning list \<times> (error + vector_fst)" where
  "lattice_boosting_graph determinize self boosted_phrases word_discount phrase_discount =
     (case gen_initial_graph boosted_phrases (word_to_int self) word_discount phrase_discount of
        (logged, Inl e) \<Rightarrow> (logged, Inl e)
      | (logged, Inr f0) \<Rightarrow>
          (logged,
           (let f = determinize f0 in
            case start f of
              None \<Rightarrow> Inl FstIndexError
            | Some s_start \<Rightarrow>
                (case eps_loop f s_start [0..<num_states f] of
                   Inl e \<Rightarrow> Inl e
                 | Inr f1 \<Rightarrow>
                     (case set_final f1 s_start (Some 0) of
                        Inl e \<Rightarrow> Inl e
                      | Inr f2 \<Rightarrow>
                          add_arc f2 s_start
                            \<lparr>ilabel = rho_int self, olabel = rho_int self, weight = 0,
                              nextstate = s_start\<rparr>)))))"

section \<open>Notions used to state the properties\<close>

text \<open>
  The definitions of this section are not part of the program. They name what the
  properties below talk about: the arcs of an automaton with their source states, the
  phrases that the loop accepts and the warnings it logs, and the set of arcs that one
  accepted phrase adds.
\<close>

text \<open>
  The arcs of an automaton, each with its source state, in state order; \<open>edges\<close> forgets
  the order.
\<close>

definition edge_list :: "vector_fst \<Rightarrow> (nat \<times> arc) list" where
  "edge_list f = concat (map (\<lambda>s. map (Pair s) (arcs (states f ! s))) [0..<length (states f)])"

definition edges :: "vector_fst \<Rightarrow> (nat \<times> arc) multiset" where
  "edges f = mset (edge_list f)"

text \<open>
  What the loop does with a phrase list: the id sequences it builds chains for (phrases
  that are out of vocabulary or empty are left out), and the warnings it logs.
\<close>

definition in_vocabulary :: "(string \<rightharpoonup> int) \<Rightarrow> string list \<Rightarrow> bool" where
  "in_vocabulary w2i p = list_all (\<lambda>w. w2i w \<noteq> None) p"

fun accepted_ids :: "(string \<rightharpoonup> int) \<Rightarrow> string list list \<Rightarrow> int list list" where
  "accepted_ids w2i [] = []"
| "accepted_ids w2i (p # ps) =
     (case those (map w2i p) of
        None \<Rightarrow> accepted_ids w2i ps
      | Some ids \<Rightarrow> if length ids = 0 then accepted_ids w2i ps else ids # accepted_ids w2i ps)"

fun oov_warnings :: "(string \<rightharpoonup> int) \<Rightarrow> string list list \<Rightarrow> warning list" where
  "oov_warnings w2i [] = []"
| "oov_warnings w2i (p # ps) =
     (case those (map w2i p) of
        None \<Rightarrow> (filter (\<lambda>w. w2i w = None) p, p) # oov_warnings w2i ps
      | Some ids \<Rightarrow> oov_warnings w2i ps)"

text \<open>
  The automaton after lines 117-119 (one state, the start state), and the phrase loop run
  on id sequences directly.
\<close>

definition start_graph :: vector_fst where
  "start_graph = \<lparr>start = Some 0, states = [\<lparr>final_weight = None, arcs = []\<rparr>]\<rparr>"

fun build_chains :: "vector_fst \<Rightarrow> nat \<Rightarrow> real \<Rightarrow> real \<Rightarrow> int list list \<Rightarrow> error + vector_fst" where
  "build_chains f s wd pd [] = Inr f"
| "build_chains f s wd pd (ids # rest) =
     (case boost_phrase f s ids wd pd of
        Inl e \<Rightarrow> Inl e
      | Inr f' \<Rightarrow> build_chains f' s wd pd rest)"

text \<open>
  The arcs one phrase adds when the automaton has \<open>n\<close> states and the start state is
  \<open>s\<close>: arc \<open>i\<close> reads word \<open>i\<close>, leaves the start state (\<open>i = 0\<close>) or the new state
  \<open>n + i - 1\<close>, and enters the new state \<open>n + i\<close>; only the last one carries the weight
  \<open>W\<close>. \<open>all_phrase_edges\<close> are the arcs of a list of phrases, \<open>last_states\<close> the states
  their chains end in.
\<close>

definition phrase_src :: "nat \<Rightarrow> nat \<Rightarrow> nat \<Rightarrow> nat" where
  "phrase_src s n i = (if i = 0 then s else n + i - 1)"

definition phrase_arc :: "nat \<Rightarrow> int list \<Rightarrow> real \<Rightarrow> nat \<Rightarrow> arc" where
  "phrase_arc n ids W i =
     \<lparr>ilabel = ids ! i, olabel = ids ! i, weight = (if Suc i = length ids then W else 0),
       nextstate = n + i\<rparr>"

definition phrase_edges :: "nat \<Rightarrow> nat \<Rightarrow> int list \<Rightarrow> real \<Rightarrow> (nat \<times> arc) list" where
  "phrase_edges s n ids W = map (\<lambda>i. (phrase_src s n i, phrase_arc n ids W i)) [0..<length ids]"

fun all_phrase_edges :: "nat \<Rightarrow> nat \<Rightarrow> real \<Rightarrow> real \<Rightarrow> int list list \<Rightarrow> (nat \<times> arc) list" where
  "all_phrase_edges s n wd pd [] = []"
| "all_phrase_edges s n wd pd (ids # rest) =
     phrase_edges s n ids (real (length ids) * wd + pd)
       @ all_phrase_edges s (n + length ids) wd pd rest"

fun last_states :: "nat \<Rightarrow> int list list \<Rightarrow> nat list" where
  "last_states n [] = []"
| "last_states n (ids # rest) = (n + length ids - 1) # last_states (n + length ids) rest"

text \<open>
  What the theorems ask of the determinization and of the vocabulary table, and the two
  arcs that the rewrite adds.
\<close>

definition has_start :: "vector_fst \<Rightarrow> bool" where
  "has_start f = (case start f of None \<Rightarrow> False | Some s \<Rightarrow> s < num_states f)"

definition label_pairs :: "vector_fst \<Rightarrow> (int \<times> int) set" where
  "label_pairs f = (\<Union>st\<in>set (states f). (\<lambda>a. (ilabel a, olabel a)) ` set (arcs st))"


definition eps_arc :: "nat \<Rightarrow> arc" where
  "eps_arc s_start = \<lparr>ilabel = 0, olabel = 0, weight = 0, nextstate = s_start\<rparr>"

definition rho_arc :: "int \<Rightarrow> nat \<Rightarrow> arc" where
  "rho_arc rho s_start = \<lparr>ilabel = rho, olabel = rho, weight = 0, nextstate = s_start\<rparr>"




text \<open>
  Concrete instances: a small vocabulary table and the builder made from it; the raw
  automaton for the single phrase \<^verbatim>\<open>a b\<close> with word discount -4 and phrase discount -2;
  and the finished graph for it when determinization changes nothing.
\<close>

definition words_txt :: "(string \<times> int) list" where
  "words_txt = [(''<eps>'', 0), (''a'', 1), (''b'', 2), (''c'', 3), (''#0'', 4)]"

definition example_builder :: builder where
  "example_builder = \<lparr>word_to_int = [''a'' \<mapsto> 1, ''b'' \<mapsto> 2, ''c'' \<mapsto> 3], rho_int = 4\<rparr>"

definition example_raw :: vector_fst where
  "example_raw =
     \<lparr>start = Some 0,
      states = [\<lparr>final_weight = None, arcs = [\<lparr>ilabel = 1, olabel = 1, weight = 0, nextstate = 1\<rparr>]\<rparr>,
                \<lparr>final_weight = None, arcs = [\<lparr>ilabel = 2, olabel = 2, weight = - 10, nextstate = 2\<rparr>]\<rparr>,
                \<lparr>final_weight = Some 0, arcs = []\<rparr>]\<rparr>"


section \<open>The container operations\<close>

lemma edges_sum:
  "edges f = (\<Sum>s\<in>{0..<length (states f)}. image_mset (Pair s) (mset (arcs (states f ! s))))"
  by (simp add: edges_def edge_list_def mset_concat comp_def sum_list_distinct_conv_sum_set)


lemma add_state_simps [simp]:
  "length (states (fst (add_state f))) = Suc (length (states f))"
  "snd (add_state f) = length (states f)"
  "start (fst (add_state f)) = start f"
  by (simp_all add: add_state_def)

lemma edges_add_state [simp]: "edges (fst (add_state f)) = edges f"
  by (simp add: edges_sum add_state_def nth_append)

lemma final_add_state:
  "final (fst (add_state f)) t =
     (if t < length (states f) then final f t
      else if t = length (states f) then Inr None else Inl FstIndexError)"
  by (auto simp: final_def add_state_def nth_append)

lemma add_arc_Inr:
  assumes "s < length (states f)"
  shows "\<exists>f'. add_arc f s a = Inr f' \<and> length (states f') = length (states f) \<and>
           start f' = start f \<and> edges f' = edges f + {#(s, a)#} \<and> final f' = final f"
proof -
  let ?f' = "f\<lparr>states := (states f)[s := (states f ! s)\<lparr>arcs := arcs (states f ! s) @ [a]\<rparr>]\<rparr>"
  let ?A = "{0..<length (states f)}"
  let ?g = "\<lambda>t. image_mset (Pair t) (mset (arcs (states f ! t)))"
  have eq: "add_arc f s a = Inr ?f'" using assms by (simp add: add_arc_def)
  have s_in: "s \<in> ?A" using assms by simp
  have "edges ?f' = (\<Sum>t\<in>?A. if t = s then ?g t + {#(s, a)#} else ?g t)"
    unfolding edges_sum by (rule sum.cong) (auto simp: nth_list_update)
  also have "\<dots> = (?g s + {#(s, a)#}) + (\<Sum>t\<in>?A - {s}. ?g t)"
    using s_in by (simp add: sum.remove [of ?A s])
  also have "\<dots> = (\<Sum>t\<in>?A. ?g t) + {#(s, a)#}"
    using s_in by (simp add: sum.remove [of ?A s ?g])
  finally have "edges ?f' = edges f + {#(s, a)#}" by (simp add: edges_sum)
  moreover have "final ?f' = final f"
    using assms by (auto simp: final_def fun_eq_iff nth_list_update)
  ultimately show ?thesis using eq by simp
qed

lemma set_final_Inr:
  assumes "s < length (states f)"
  shows "\<exists>f'. set_final f s w = Inr f' \<and> length (states f') = length (states f) \<and>
           start f' = start f \<and> edges f' = edges f \<and> final f' = (final f)(s := Inr w)"
proof -
  let ?f' = "f\<lparr>states := (states f)[s := (states f ! s)\<lparr>final_weight := w\<rparr>]\<rparr>"
  have eq: "set_final f s w = Inr ?f'" using assms by (simp add: set_final_def)
  have "edges ?f' = edges f"
    unfolding edges_sum using assms by (intro sum.cong) (auto simp: nth_list_update)
  moreover have "final ?f' = (final f)(s := Inr w)"
    using assms by (auto simp: final_def fun_eq_iff nth_list_update)
  ultimately show ?thesis using eq by simp
qed

section \<open>The loops of the raw construction\<close>

lemma upt_0_Suc_conv: "[0..<Suc m] = 0 # map Suc [0..<m]"
  by (simp add: upt_conv_Cons map_Suc_upt del: upt_Suc)

lemma prefix_loop_spec:
  assumes "s < length (states f)"
  shows "\<exists>f'. prefix_loop f s ws = Inr (f', phrase_src s (length (states f)) (length ws)) \<and>
     length (states f') = length (states f) + length ws \<and> start f' = start f \<and>
     edges f' = edges f + mset (map (\<lambda>i. (phrase_src s (length (states f)) i,
          \<lparr>ilabel = ws ! i, olabel = ws ! i, weight = 0, nextstate = length (states f) + i\<rparr>))
          [0..<length ws]) \<and>
     final f' = (\<lambda>t. if t < length (states f) then final f t
                     else if t < length (states f) + length ws then Inr None
                     else Inl FstIndexError)"
  using assms
proof (induction ws arbitrary: f s)
  case Nil
  then show ?case by (auto simp: phrase_src_def final_def fun_eq_iff)
next
  case (Cons w ws)
  let ?n = "length (states f)"
  let ?f1 = "fst (add_state f)"
  let ?a = "\<lparr>ilabel = w, olabel = w, weight = 0, nextstate = ?n\<rparr>"
  have "s < length (states ?f1)" using Cons.prems by simp
  from add_arc_Inr [OF this, of ?a] obtain f2 where
    f2: "add_arc ?f1 s ?a = Inr f2" "length (states f2) = Suc ?n" "start f2 = start f"
        "edges f2 = edges f + {#(s, ?a)#}" "final f2 = final ?f1"
    by auto
  have "?n < length (states f2)" using f2 by simp
  from Cons.IH [OF this, unfolded f2(2)] obtain f' where
    f': "prefix_loop f2 ?n ws = Inr (f', phrase_src ?n (Suc ?n) (length ws))"
        "length (states f') = Suc ?n + length ws" "start f' = start f2"
        "edges f' = edges f2 + mset (map (\<lambda>i. (phrase_src ?n (Suc ?n) i,
          \<lparr>ilabel = ws ! i, olabel = ws ! i, weight = 0, nextstate = Suc ?n + i\<rparr>))
          [0..<length ws])"
        "final f' = (\<lambda>t. if t < Suc ?n then final f2 t
                     else if t < Suc ?n + length ws then Inr None
                     else Inl FstIndexError)"
    by blast
  have src: "phrase_src ?n (Suc ?n) i = phrase_src s ?n (Suc i)" for i
    by (simp add: phrase_src_def)
  have src0: "phrase_src s ?n 0 = s" "phrase_src s ?n (Suc i) = ?n + i" for i
    by (simp_all add: phrase_src_def)
  have run: "prefix_loop f s (w # ws) = Inr (f', phrase_src s ?n (length (w # ws)))"
    using f2(1) f'(1) by (simp add: src split: prod.splits) (simp add: add_state_def)
  have ed: "edges f' = edges f + mset (map (\<lambda>i. (phrase_src s ?n i,
          \<lparr>ilabel = (w # ws) ! i, olabel = (w # ws) ! i, weight = 0, nextstate = ?n + i\<rparr>))
          [0..<length (w # ws)])"
    using f'(4) f2(4) by (simp add: upt_0_Suc_conv comp_def src src0 del: upt_Suc)
  have fi: "final f' = (\<lambda>t. if t < ?n then final f t
                     else if t < ?n + length (w # ws) then Inr None
                     else Inl FstIndexError)"
    using f'(5) f2(5) by (auto simp: fun_eq_iff final_add_state)
  show ?case using run ed fi f'(2,3) f2(3) by simp
qed

lemma phrase_edges_snoc:
  "phrase_edges s n (ws @ [x]) W =
     map (\<lambda>i. (phrase_src s n i, \<lparr>ilabel = ws ! i, olabel = ws ! i, weight = 0, nextstate = n + i\<rparr>))
       [0..<length ws]
     @ [(phrase_src s n (length ws), \<lparr>ilabel = x, olabel = x, weight = W, nextstate = n + length ws\<rparr>)]"
  by (simp add: phrase_edges_def phrase_arc_def nth_append)

lemma boost_phrase_snoc:
  assumes "s < length (states f)"
  shows "\<exists>f'. boost_phrase f s (ws @ [x]) wd pd = Inr f' \<and>
     length (states f') = length (states f) + length (ws @ [x]) \<and> start f' = start f \<and>
     edges f' = edges f +
        mset (phrase_edges s (length (states f)) (ws @ [x]) (real (length (ws @ [x])) * wd + pd)) \<and>
     final f' = (\<lambda>t. if t < length (states f) then final f t
                     else if t < length (states f) + length ws then Inr None
                     else if t = length (states f) + length ws then Inr (Some 0)
                     else Inl FstIndexError)"
proof -
  let ?n = "length (states f)"
  let ?W = "real (length (ws @ [x])) * wd + pd"
  let ?sp = "phrase_src s ?n (length ws)"
  from prefix_loop_spec [OF assms, of ws] obtain f1 where
    f1: "prefix_loop f s ws = Inr (f1, ?sp)"
        "length (states f1) = ?n + length ws" "start f1 = start f"
        "edges f1 = edges f + mset (map (\<lambda>i. (phrase_src s ?n i,
          \<lparr>ilabel = ws ! i, olabel = ws ! i, weight = 0, nextstate = ?n + i\<rparr>)) [0..<length ws])"
        "final f1 = (\<lambda>t. if t < ?n then final f t
                     else if t < ?n + length ws then Inr None else Inl FstIndexError)"
    by blast
  let ?f2 = "fst (add_state f1)"
  let ?a = "\<lparr>ilabel = x, olabel = x, weight = ?W, nextstate = ?n + length ws\<rparr>"
  have "?sp < length (states ?f2)" using assms f1(2) by (auto simp: phrase_src_def)
  from add_arc_Inr [OF this, of ?a] obtain f3 where
    f3: "add_arc ?f2 ?sp ?a = Inr f3" "length (states f3) = length (states ?f2)"
        "start f3 = start ?f2" "edges f3 = edges ?f2 + {#(?sp, ?a)#}" "final f3 = final ?f2"
    by blast
  have "?n + length ws < length (states f3)" using f3(2) f1(2) by simp
  from set_final_Inr [OF this, of "Some 0"] obtain f' where
    f': "set_final f3 (?n + length ws) (Some 0) = Inr f'" "length (states f') = length (states f3)"
        "start f' = start f3" "edges f' = edges f3"
        "final f' = (final f3)(?n + length ws := Inr (Some 0))"
    by blast
  have run: "boost_phrase f s (ws @ [x]) wd pd = Inr f'"
    using f1(1,2) f3(1) f'(1)
    by (simp add: boost_phrase_def Let_def split: prod.splits) (simp add: add_state_def)
  have len: "length (states f') = ?n + length (ws @ [x])"
    using f'(2) f3(2) f1(2) by simp
  have st: "start f' = start f" using f'(3) f3(3) f1(3) by simp
  have ed: "edges f' = edges f + mset (phrase_edges s ?n (ws @ [x]) ?W)"
    using f'(4) f3(4) f1(4) by (simp add: phrase_edges_snoc)
  have fi: "final f' = (\<lambda>t. if t < ?n then final f t
                     else if t < ?n + length ws then Inr None
                     else if t = ?n + length ws then Inr (Some 0)
                     else Inl FstIndexError)"
    using f'(5) f3(5) f1(2,5) by (auto simp: fun_eq_iff final_add_state)
  show ?thesis using run len st ed fi by blast
qed

lemma boost_phrase_spec:
  assumes "s < length (states f)" and "ids \<noteq> []"
  shows "\<exists>f'. boost_phrase f s ids wd pd = Inr f' \<and>
     length (states f') = length (states f) + length ids \<and> start f' = start f \<and>
     edges f' = edges f +
        mset (phrase_edges s (length (states f)) ids (real (length ids) * wd + pd)) \<and>
     final f' = (\<lambda>t. if t < length (states f) then final f t
                     else if Suc t < length (states f) + length ids then Inr None
                     else if Suc t = length (states f) + length ids then Inr (Some 0)
                     else Inl FstIndexError)"
proof -
  obtain ws x where ids: "ids = ws @ [x]"
    using assms(2) by (metis append_butlast_last_id)
  from boost_phrase_snoc [OF assms(1), of ws x wd pd] obtain f' where
    f': "boost_phrase f s (ws @ [x]) wd pd = Inr f'"
        "length (states f') = length (states f) + length (ws @ [x])" "start f' = start f"
        "edges f' = edges f +
           mset (phrase_edges s (length (states f)) (ws @ [x]) (real (length (ws @ [x])) * wd + pd))"
        "final f' = (\<lambda>t. if t < length (states f) then final f t
                     else if t < length (states f) + length ws then Inr None
                     else if t = length (states f) + length ws then Inr (Some 0)
                     else Inl FstIndexError)"
    by blast
  have "final f' = (\<lambda>t. if t < length (states f) then final f t
                     else if Suc t < length (states f) + length (ws @ [x]) then Inr None
                     else if Suc t = length (states f) + length (ws @ [x]) then Inr (Some 0)
                     else Inl FstIndexError)"
    unfolding f'(5) by (auto simp: fun_eq_iff)
  then show ?thesis using f'(1-4) unfolding ids by blast
qed

lemma last_states_bounds:
  "[] \<notin> set idss \<Longrightarrow> t \<in> set (last_states n idss) \<Longrightarrow> n \<le> t \<and> t < n + length (concat idss)"
proof (induction idss arbitrary: n)
  case Nil
  then show ?case by simp
next
  case (Cons ids rest)
  have pos: "0 < length ids" and rest: "[] \<notin> set rest" using Cons.prems(1) by auto
  from Cons.prems(2) consider "t = n + length ids - 1" | "t \<in> set (last_states (n + length ids) rest)"
    by auto
  then show ?case
  proof cases
    case 1
    then show ?thesis using pos by (cases ids) simp_all
  next
    case 2
    from Cons.IH [OF rest 2] show ?thesis by simp
  qed
qed

lemma last_states_ge: "t \<in> set (last_states n idss) \<Longrightarrow> [] \<notin> set idss \<Longrightarrow> n \<le> t"
  using last_states_bounds by blast

lemma phrase_loop_build:
  "build_chains f s wd pd (accepted_ids w2i ps) = Inr g \<Longrightarrow>
   phrase_loop w2i wd pd s logged f ps = (logged @ oov_warnings w2i ps, Inr g)"
proof (induction ps arbitrary: f logged)
  case Nil
  then show ?case by simp
next
  case (Cons p ps)
  show ?case
  proof (cases "those (map w2i p)")
    case None
    then show ?thesis using Cons by simp
  next
    case (Some ids)
    show ?thesis
    proof (cases "length ids = 0")
      case True
      then show ?thesis using Some Cons by simp
    next
      case False
      then obtain f' where "boost_phrase f s ids wd pd = Inr f'"
        and "build_chains f' s wd pd (accepted_ids w2i ps) = Inr g"
        using Some Cons.prems by (auto split: sum.splits)
      then show ?thesis using Some False Cons.IH by simp
    qed
  qed
qed

lemma build_chains_spec:
  assumes "s < length (states f)" and "[] \<notin> set idss"
  shows "\<exists>g. build_chains f s wd pd idss = Inr g \<and>
     length (states g) = length (states f) + length (concat idss) \<and> start g = start f \<and>
     edges g = edges f + mset (all_phrase_edges s (length (states f)) wd pd idss) \<and>
     final g = (\<lambda>t. if t < length (states f) then final f t
                    else if t < length (states f) + length (concat idss)
                    then (if t \<in> set (last_states (length (states f)) idss) then Inr (Some 0)
                          else Inr None)
                    else Inl FstIndexError)"
  using assms
proof (induction idss arbitrary: f)
  case Nil
  then show ?case by (auto simp: final_def fun_eq_iff)
next
  case (Cons ids rest)
  let ?n = "length (states f)"
  have ne: "ids \<noteq> []" and rest: "[] \<notin> set rest" using Cons.prems(2) by auto
  from boost_phrase_spec [OF Cons.prems(1) ne, of wd pd] obtain f' where
    f': "boost_phrase f s ids wd pd = Inr f'" "length (states f') = ?n + length ids"
        "start f' = start f"
        "edges f' = edges f + mset (phrase_edges s ?n ids (real (length ids) * wd + pd))"
        "final f' = (\<lambda>t. if t < ?n then final f t
                     else if Suc t < ?n + length ids then Inr None
                     else if Suc t = ?n + length ids then Inr (Some 0)
                     else Inl FstIndexError)"
    by blast
  have "s < length (states f')" using Cons.prems(1) f'(2) by simp
  from Cons.IH [OF this rest, unfolded f'(2)] obtain g where
    g: "build_chains f' s wd pd rest = Inr g"
       "length (states g) = ?n + length ids + length (concat rest)" "start g = start f'"
       "edges g = edges f' + mset (all_phrase_edges s (?n + length ids) wd pd rest)"
       "final g = (\<lambda>t. if t < ?n + length ids then final f' t
                    else if t < ?n + length ids + length (concat rest)
                    then (if t \<in> set (last_states (?n + length ids) rest) then Inr (Some 0)
                          else Inr None)
                    else Inl FstIndexError)"
    by blast
  have run: "build_chains f s wd pd (ids # rest) = Inr g" using f'(1) g(1) by simp
  have len: "length (states g) = ?n + length (concat (ids # rest))" using g(2) by simp
  have ed: "edges g = edges f + mset (all_phrase_edges s ?n wd pd (ids # rest))"
    using g(4) f'(4) by simp
  have ge: "t \<in> set (last_states (?n + length ids) rest) \<Longrightarrow> ?n + length ids \<le> t" for t
    using last_states_ge [OF _ rest] by blast
  have fi: "final g = (\<lambda>t. if t < ?n then final f t
                    else if t < ?n + length (concat (ids # rest))
                    then (if t \<in> set (last_states ?n (ids # rest)) then Inr (Some 0)
                          else Inr None)
                    else Inl FstIndexError)"
    unfolding g(5) f'(5) using ne ge by (auto simp: fun_eq_iff dest: ge)
  show ?case using run len ed fi g(3) f'(3) by simp
qed

section \<open>Accepted phrases and warnings\<close>

lemma those_map_None: "those (map w2i p) = None \<longleftrightarrow> \<not> in_vocabulary w2i p"
  by (induction p) (auto simp: in_vocabulary_def split: option.splits)


lemma those_map_Some_length: "those (map w2i p) = Some ids \<Longrightarrow> length ids = length p"
  by (induction p arbitrary: ids) (auto split: option.splits)

lemma accepted_ids_nonempty: "[] \<notin> set (accepted_ids w2i ps)"
  by (induction ps) (auto split: option.splits)


lemma accepted_ids_append:
  "accepted_ids w2i (ps @ qs) = accepted_ids w2i ps @ accepted_ids w2i qs"
  by (induction ps) (auto split: option.splits)

lemma oov_warnings_append:
  "oov_warnings w2i (ps @ qs) = oov_warnings w2i ps @ oov_warnings w2i qs"
  by (induction ps) (auto split: option.splits)

lemma in_vocabulary_those: "in_vocabulary w2i p \<longleftrightarrow> those (map w2i p) \<noteq> None"
  using those_map_None [of w2i p] by auto

lemma accepted_ids_filter:
  "accepted_ids w2i (filter (in_vocabulary w2i) ps) = accepted_ids w2i ps"
  by (induction ps) (auto simp: in_vocabulary_those split: option.splits)

lemma oov_warnings_filter:
  "oov_warnings w2i ps =
     map (\<lambda>p. (filter (\<lambda>w. w2i w = None) p, p)) (filter (\<lambda>p. \<not> in_vocabulary w2i p) ps)"
  by (induction ps) (auto simp: in_vocabulary_those split: option.splits)

lemma oov_warnings_in_vocabulary:
  "oov_warnings w2i (filter (in_vocabulary w2i) ps) = []"
  by (induction ps) (auto simp: in_vocabulary_those split: option.splits)

lemma start_graph_facts:
  "length (states start_graph) = 1" "start start_graph = Some 0" "edges start_graph = {#}"
  "final start_graph = (\<lambda>t. if t < 1 then Inr None else Inl FstIndexError)"
  by (auto simp: start_graph_def edges_def edge_list_def final_def fun_eq_iff)

lemma gen_initial_graph_eq:
  "gen_initial_graph ps w2i wd pd =
     (oov_warnings w2i ps, build_chains start_graph 0 wd pd (accepted_ids w2i ps))"
proof -
  have "0 < length (states start_graph)" by (simp add: start_graph_facts)
  from build_chains_spec [OF this accepted_ids_nonempty, of wd pd w2i ps]
  obtain g where g: "build_chains start_graph 0 wd pd (accepted_ids w2i ps) = Inr g" by blast
  have "gen_initial_graph ps w2i wd pd = phrase_loop w2i wd pd 0 [] start_graph ps"
    by (simp add: gen_initial_graph_def VectorFst_def add_state_def set_start_def start_graph_def)
  then show ?thesis using phrase_loop_build [OF g, of "[]"] g by simp
qed

lemma gen_initial_graph_spec:
  "\<exists>g. gen_initial_graph ps w2i wd pd = (oov_warnings w2i ps, Inr g) \<and>
     length (states g) = 1 + length (concat (accepted_ids w2i ps)) \<and> start g = Some 0 \<and>
     edges g = mset (all_phrase_edges 0 1 wd pd (accepted_ids w2i ps)) \<and>
     final g = (\<lambda>t. if t < 1 + length (concat (accepted_ids w2i ps))
                    then (if t \<in> set (last_states 1 (accepted_ids w2i ps)) then Inr (Some 0)
                          else Inr None)
                    else Inl FstIndexError)"
proof -
  have "0 < length (states start_graph)" by (simp add: start_graph_facts)
  from build_chains_spec [OF this accepted_ids_nonempty, of wd pd w2i ps]
  obtain g where g: "build_chains start_graph 0 wd pd (accepted_ids w2i ps) = Inr g"
     "length (states g) = length (states start_graph) + length (concat (accepted_ids w2i ps))"
     "start g = start start_graph"
     "edges g = edges start_graph + mset (all_phrase_edges 0 (length (states start_graph)) wd pd (accepted_ids w2i ps))"
     "final g = (\<lambda>t. if t < length (states start_graph) then final start_graph t
                    else if t < length (states start_graph) + length (concat (accepted_ids w2i ps))
                    then (if t \<in> set (last_states (length (states start_graph)) (accepted_ids w2i ps)) then Inr (Some 0)
                          else Inr None)
                    else Inl FstIndexError)"
    by blast
  have ge: "0 \<notin> set (last_states (Suc 0) (accepted_ids w2i ps))"
    using last_states_ge [OF _ accepted_ids_nonempty, of 0 "Suc 0"] by auto
  have "final g = (\<lambda>t. if t < 1 + length (concat (accepted_ids w2i ps))
                    then (if t \<in> set (last_states 1 (accepted_ids w2i ps)) then Inr (Some 0)
                          else Inr None)
                    else Inl FstIndexError)"
    unfolding g(5) start_graph_facts using ge by (auto simp: fun_eq_iff)
  then show ?thesis using g(1-4) by (simp add: gen_initial_graph_eq start_graph_facts)
qed

lemma lattice_boosting_graph_fst:
  "fst (lattice_boosting_graph determinize self ps wd pd) = oov_warnings (word_to_int self) ps"
  by (simp add: lattice_boosting_graph_def gen_initial_graph_eq split: sum.splits)

lemma lattice_boosting_graph_cong:
  assumes "snd (gen_initial_graph ps (word_to_int self) wd pd) =
           snd (gen_initial_graph qs (word_to_int self) wd pd)"
  shows "snd (lattice_boosting_graph determinize self ps wd pd) =
         snd (lattice_boosting_graph determinize self qs wd pd)"
  using assms by (simp add: lattice_boosting_graph_def gen_initial_graph_eq split: sum.splits)

section \<open>The builder and its lookup table\<close>

lemma map_of_rev_None: "map_of (rev rows) k = None \<longleftrightarrow> k \<notin> fst ` set rows"
  by (simp add: map_of_eq_None_iff)

lemma builder_init_example: "builder_init (Inr words_txt) = Inr example_builder"
  by (auto simp: builder_init_def words_txt_def example_builder_def Let_def fun_eq_iff)

lemma builder_init_rows:
  "builder_init (Inr rows) =
     (if ''<eps>'' \<notin> fst ` set rows then Inl (KeyError ''<eps>'')
      else if ''#0'' \<notin> fst ` set rows then Inl (KeyError ''#0'')
      else Inr \<lparr>word_to_int = (map_of (rev rows))(''<eps>'' := None, ''#0'' := None),
                 rho_int = the (map_of (rev rows) ''#0'')\<rparr>)"
proof (cases "map_of (rev rows) ''#0''")
  case None
  then show ?thesis
    by (simp add: builder_init_def Let_def map_of_rev_None [symmetric])
next
  case (Some r)
  then show ?thesis
    by (simp add: builder_init_def Let_def map_of_rev_None [symmetric])
qed

lemma builder_init_reserved:
  assumes "builder_init (Inr rows) = Inr self"
  shows "''<eps>'' \<in> fst ` set rows" "''#0'' \<in> fst ` set rows"
    "word_to_int self ''<eps>'' = None" "word_to_int self ''#0'' = None"
    "word_to_int self = (map_of (rev rows))(''<eps>'' := None, ''#0'' := None)"
    "map_of (rev rows) ''#0'' = Some (rho_int self)"
proof -
  have eq: "builder_init (Inr rows) =
     (if ''<eps>'' \<notin> fst ` set rows then Inl (KeyError ''<eps>'')
         else if ''#0'' \<notin> fst ` set rows then Inl (KeyError ''#0'')
         else Inr \<lparr>word_to_int = (map_of (rev rows))(''<eps>'' := None, ''#0'' := None),
                    rho_int = the (map_of (rev rows) ''#0'')\<rparr>)"
    by (rule builder_init_rows)
  show a: "''<eps>'' \<in> fst ` set rows" using assms eq by (auto split: if_splits)
  show b: "''#0'' \<in> fst ` set rows" using assms eq by (auto split: if_splits)
  have s: "self = \<lparr>word_to_int = (map_of (rev rows))(''<eps>'' := None, ''#0'' := None),
                    rho_int = the (map_of (rev rows) ''#0'')\<rparr>"
    using assms eq a b by simp
  show "word_to_int self ''<eps>'' = None" "word_to_int self ''#0'' = None"
    "word_to_int self = (map_of (rev rows))(''<eps>'' := None, ''#0'' := None)"
    by (simp_all add: s)
  have "map_of (rev rows) ''#0'' \<noteq> None" using b by (simp add: map_of_rev_None)
  then show "map_of (rev rows) ''#0'' = Some (rho_int self)" by (auto simp: s)
qed

lemma gen_initial_graph_insert_oov:
  assumes "\<not> in_vocabulary w2i p"
  shows "gen_initial_graph (ps @ p # qs) w2i wd pd =
     (fst (gen_initial_graph ps w2i wd pd) @ (filter (\<lambda>w. w2i w = None) p, p)
        # fst (gen_initial_graph qs w2i wd pd),
      snd (gen_initial_graph (ps @ qs) w2i wd pd))"
proof -
  have "those (map w2i p) = None" using assms by (simp add: those_map_None)
  then show ?thesis
    by (simp add: gen_initial_graph_eq accepted_ids_append oov_warnings_append)
qed

lemma gen_initial_graph_insert_empty:
  assumes "those (map w2i p) = Some []"
  shows "gen_initial_graph (ps @ p # qs) w2i wd pd = gen_initial_graph (ps @ qs) w2i wd pd"
  using assms by (simp add: gen_initial_graph_eq accepted_ids_append oov_warnings_append)

lemma lattice_boosting_graph_eqI:
  assumes "gen_initial_graph ps (word_to_int self) wd pd = gen_initial_graph qs (word_to_int self) wd pd"
  shows "lattice_boosting_graph determinize self ps wd pd =
         lattice_boosting_graph determinize self qs wd pd"
  using assms by (simp add: lattice_boosting_graph_def)

section \<open>The rewrite of the determinized automaton\<close>

lemma fst_state_updates:
  "r\<lparr>arcs := X\<rparr> = \<lparr>final_weight = final_weight r, arcs = X\<rparr>"
  "r\<lparr>final_weight := W\<rparr> = \<lparr>final_weight = W, arcs = arcs r\<rparr>"
  by (cases r, simp)+

lemma eps_loop_step:
  assumes "s < length (states f)" and "s \<noteq> s0"
  shows "eps_loop f s0 (s # rest) =
     eps_loop (f\<lparr>states := (states f)[s := \<lparr>final_weight = None,
                  arcs = arcs (states f ! s) @ [eps_arc s0]\<rparr>]\<rparr>) s0 rest"
proof (cases "final_weight (states f ! s)")
  case None
  then show ?thesis using assms
    by (simp add: add_arc_def final_def set_final_def eps_arc_def fst_state_updates)
next
  case (Some w)
  then show ?thesis using assms
    by (simp add: add_arc_def final_def set_final_def eps_arc_def fst_state_updates)
qed

lemma eps_loop_spec:
  assumes "\<forall>s\<in>set ss. s < length (states f)" and "distinct ss"
  shows "\<exists>g. eps_loop f s0 ss = Inr g \<and> start g = start f \<and>
     length (states g) = length (states f) \<and>
     (\<forall>t<length (states f). states g ! t =
        (if t \<in> set ss \<and> t \<noteq> s0
         then \<lparr>final_weight = None, arcs = arcs (states f ! t) @ [eps_arc s0]\<rparr>
         else states f ! t))"
  using assms
proof (induction ss arbitrary: f)
  case Nil
  then show ?case by simp
next
  case (Cons s rest)
  show ?case
  proof (cases "s = s0")
    case True
    have "\<forall>s\<in>set rest. s < length (states f)" "distinct rest" using Cons.prems by auto
    from Cons.IH [OF this] obtain g where
      g: "eps_loop f s0 rest = Inr g" "start g = start f" "length (states g) = length (states f)"
         "\<forall>t<length (states f). states g ! t =
            (if t \<in> set rest \<and> t \<noteq> s0
             then \<lparr>final_weight = None, arcs = arcs (states f ! t) @ [eps_arc s0]\<rparr>
             else states f ! t)"
      by blast
    have "eps_loop f s0 (s # rest) = Inr g" using True g(1) by simp
    moreover have "\<forall>t<length (states f). states g ! t =
            (if t \<in> set (s # rest) \<and> t \<noteq> s0
             then \<lparr>final_weight = None, arcs = arcs (states f ! t) @ [eps_arc s0]\<rparr>
             else states f ! t)"
      using g(4) True by auto
    ultimately show ?thesis using g(2,3) by blast
  next
    case False
    let ?f2 = "f\<lparr>states := (states f)[s := \<lparr>final_weight = None,
                  arcs = arcs (states f ! s) @ [eps_arc s0]\<rparr>]\<rparr>"
    have s: "s < length (states f)" and notin: "s \<notin> set rest" using Cons.prems by auto
    have "\<forall>s\<in>set rest. s < length (states ?f2)" "distinct rest" using Cons.prems by auto
    from Cons.IH [OF this] obtain g where
      g: "eps_loop ?f2 s0 rest = Inr g" "start g = start ?f2"
         "length (states g) = length (states ?f2)"
         "\<forall>t<length (states ?f2). states g ! t =
            (if t \<in> set rest \<and> t \<noteq> s0
             then \<lparr>final_weight = None, arcs = arcs (states ?f2 ! t) @ [eps_arc s0]\<rparr>
             else states ?f2 ! t)"
      by blast
    have "eps_loop f s0 (s # rest) = Inr g" using eps_loop_step [OF s False] g(1) by simp
    moreover have "\<forall>t<length (states f). states g ! t =
            (if t \<in> set (s # rest) \<and> t \<noteq> s0
             then \<lparr>final_weight = None, arcs = arcs (states f ! t) @ [eps_arc s0]\<rparr>
             else states f ! t)"
      using g(4) s notin False by (auto simp: nth_list_update)
    ultimately show ?thesis using g(2,3) by auto
  qed
qed

lemma lattice_boosting_graph_spec:
  assumes "snd (gen_initial_graph ps (word_to_int self) wd pd) = Inr raw"
    and "start (determinize raw) = Some s0" and "s0 < length (states (determinize raw))"
  shows "\<exists>g. snd (lattice_boosting_graph determinize self ps wd pd) = Inr g \<and>
     start g = Some s0 \<and> length (states g) = length (states (determinize raw)) \<and>
     (\<forall>t<length (states (determinize raw)). states g ! t =
        (if t = s0
         then \<lparr>final_weight = Some 0,
               arcs = arcs (states (determinize raw) ! t) @ [rho_arc (rho_int self) s0]\<rparr>
         else \<lparr>final_weight = None,
               arcs = arcs (states (determinize raw) ! t) @ [eps_arc s0]\<rparr>))"
proof -
  let ?d = "determinize raw"
  let ?n = "length (states ?d)"
  have "\<forall>s\<in>set [0..<?n]. s < ?n" "distinct [0..<?n]" by auto
  from eps_loop_spec [OF this, of s0] obtain f1 where
    f1: "eps_loop ?d s0 [0..<?n] = Inr f1" "start f1 = start ?d" "length (states f1) = ?n"
        "\<forall>t<?n. states f1 ! t =
            (if t \<in> set [0..<?n] \<and> t \<noteq> s0
             then \<lparr>final_weight = None, arcs = arcs (states ?d ! t) @ [eps_arc s0]\<rparr>
             else states ?d ! t)"
    by blast
  let ?f2 = "f1\<lparr>states := (states f1)[s0 := (states f1 ! s0)\<lparr>final_weight := Some 0\<rparr>]\<rparr>"
  let ?g = "?f2\<lparr>states := (states ?f2)[s0 := (states ?f2 ! s0)
                \<lparr>arcs := arcs (states ?f2 ! s0) @ [rho_arc (rho_int self) s0]\<rparr>]\<rparr>"
  have s0: "s0 < length (states f1)" using assms(3) f1(3) by simp
  obtain lg where gen: "gen_initial_graph ps (word_to_int self) wd pd = (lg, Inr raw)"
    using assms(1) by (cases "gen_initial_graph ps (word_to_int self) wd pd") auto
  have run: "snd (lattice_boosting_graph determinize self ps wd pd) = Inr ?g"
    using assms(2) f1(1) s0
    by (simp add: lattice_boosting_graph_def gen Let_def num_states_def set_final_def add_arc_def
          rho_arc_def)
  have old: "states f1 ! s0 = states ?d ! s0" using f1(4) assms(3) by simp
  have "states ?g ! t =
        (if t = s0
         then \<lparr>final_weight = Some 0, arcs = arcs (states ?d ! t) @ [rho_arc (rho_int self) s0]\<rparr>
         else \<lparr>final_weight = None, arcs = arcs (states ?d ! t) @ [eps_arc s0]\<rparr>)"
    if "t < ?n" for t
    using that f1(3,4) s0 old by (auto simp: nth_list_update fst_state_updates)
  moreover have "start ?g = Some s0" using f1(2) assms(2) by simp
  moreover have "length (states ?g) = ?n" using f1(3) by simp
  ultimately show ?thesis using run by blast
qed

lemma gen_initial_graph_example:
  "gen_initial_graph [[''a'', ''b'']] (word_to_int example_builder) (- 4) (- 2) = ([], Inr example_raw)"
  by (simp add: gen_initial_graph_def VectorFst_def add_state_def set_start_def boost_phrase_def
        add_arc_def set_final_def example_builder_def example_raw_def)

lemma example_raw_facts:
  "has_start example_raw" "label_pairs example_raw = {(1, 1), (2, 2)}"
  by (auto simp: has_start_def label_pairs_def example_raw_def num_states_def)






lemma filter_upt_eq: "s0 < n \<Longrightarrow> filter (\<lambda>s. s = s0) [0..<n] = [s0]"
proof (induction n)
  case 0
  then show ?case by simp
next
  case (Suc n)
  show ?case
  proof (cases "s0 = n")
    case True
    then have "filter (\<lambda>s. s = n) [0..<n] = []" by (auto simp: filter_empty_conv)
    then show ?thesis using True by simp
  next
    case False
    then show ?thesis using Suc by simp
  qed
qed

lemma accepted_ids_dropped:
  "\<forall>p\<in>set ps. \<not> in_vocabulary w2i p \<or> p = [] \<Longrightarrow> accepted_ids w2i ps = []"
  by (induction ps) (auto simp: in_vocabulary_those split: option.splits)

lemma vector_fst_single:
  assumes "start g = st" and "length (states g) = 1" and "states g ! 0 = x"
  shows "g = \<lparr>start = st, states = [x]\<rparr>"
proof -
  from assms(2,3) have "states g = [x]" by (cases "states g") auto
  then show ?thesis using assms(1) by (cases g) simp
qed

section \<open>Shape of the raw automaton\<close>












section \<open>Paths of one phrase\<close>















section \<open>Builder construction: which tables are refused\<close>




section \<open>Out-of-vocabulary phrases\<close>

text \<open>
  Claim C5. A phrase with a word that is not in the lookup table is skipped as a whole:
  the automaton built from a phrase list is the automaton built from its fully
  in-vocabulary phrases alone. The log holds one warning for each skipped phrase, in
  order, made of all its missing words and of the phrase itself. The raw construction
  never raises. The same holds for the finished boosting graph, whatever the
  determinization does.
\<close>

theorem oov_phrases_dropped:
  "gen_initial_graph boosted_phrases (word_to_int self) wd pd =
     (map (\<lambda>p. (filter (\<lambda>w. word_to_int self w = None) p, p))
        (filter (\<lambda>p. \<not> in_vocabulary (word_to_int self) p) boosted_phrases),
      snd (gen_initial_graph (filter (in_vocabulary (word_to_int self)) boosted_phrases)
             (word_to_int self) wd pd))
   \<and> (\<exists>f. snd (gen_initial_graph boosted_phrases (word_to_int self) wd pd) = Inr f)
   \<and> lattice_boosting_graph determinize self boosted_phrases wd pd =
     (map (\<lambda>p. (filter (\<lambda>w. word_to_int self w = None) p, p))
        (filter (\<lambda>p. \<not> in_vocabulary (word_to_int self) p) boosted_phrases),
      snd (lattice_boosting_graph determinize self
             (filter (in_vocabulary (word_to_int self)) boosted_phrases) wd pd))"
proof -
  let ?w = "word_to_int self"
  let ?ok = "filter (in_vocabulary ?w) boosted_phrases"
  have a: "gen_initial_graph boosted_phrases ?w wd pd =
     (map (\<lambda>p. (filter (\<lambda>w. ?w w = None) p, p)) (filter (\<lambda>p. \<not> in_vocabulary ?w p) boosted_phrases),
      snd (gen_initial_graph ?ok ?w wd pd))"
    by (simp add: gen_initial_graph_eq accepted_ids_filter oov_warnings_filter [symmetric])
  have b: "\<exists>f. snd (gen_initial_graph boosted_phrases ?w wd pd) = Inr f"
    using gen_initial_graph_spec [of boosted_phrases ?w wd pd] by auto
  have "snd (gen_initial_graph boosted_phrases ?w wd pd) = snd (gen_initial_graph ?ok ?w wd pd)"
    using a by simp
  from lattice_boosting_graph_cong [OF this]
  have c: "lattice_boosting_graph determinize self boosted_phrases wd pd =
     (map (\<lambda>p. (filter (\<lambda>w. ?w w = None) p, p)) (filter (\<lambda>p. \<not> in_vocabulary ?w p) boosted_phrases),
      snd (lattice_boosting_graph determinize self ?ok wd pd))"
    by (simp add: prod_eq_iff lattice_boosting_graph_fst oov_warnings_filter)
  show ?thesis using a b c by blast
qed

theorem oov_phrases_dropped_witness:
  "lattice_boosting_graph (\<lambda>f. f) example_builder [[''a'', ''xyz'', ''q''], [''a'', ''b'']] (- 4) (- 2) =
     ([([''xyz'', ''q''], [''a'', ''xyz'', ''q''])],
      snd (lattice_boosting_graph (\<lambda>f. f) example_builder [[''a'', ''b'']] (- 4) (- 2)))"
  using oov_phrases_dropped
    [of "[[''a'', ''xyz'', ''q''], [''a'', ''b'']]" example_builder "- 4" "- 2" "\<lambda>f. f"]
  by (simp add: in_vocabulary_def example_builder_def)

text \<open>
  Claim C6, as amended. A phrase whose id sequence is empty (the empty phrase: a blank
  line of the phrase file) is skipped by a plain \<^verbatim>\<open>continue\<close>: the log and the automaton
  are those of the phrase list without it. No warning is written for it.
\<close>

theorem empty_phrase_skipped_silently:
  assumes "those (map (word_to_int self) p) = Some []"
  shows "gen_initial_graph (ps @ p # qs) (word_to_int self) wd pd =
           gen_initial_graph (ps @ qs) (word_to_int self) wd pd \<and>
         lattice_boosting_graph determinize self (ps @ p # qs) wd pd =
           lattice_boosting_graph determinize self (ps @ qs) wd pd"
  using gen_initial_graph_insert_empty [OF assms] lattice_boosting_graph_eqI by blast

theorem empty_phrase_skipped_silently_witness:
  "gen_initial_graph ([[''a'', ''b'']] @ [] # [[''c'']]) (word_to_int example_builder) (- 4) (- 2) =
     gen_initial_graph ([[''a'', ''b'']] @ [[''c'']]) (word_to_int example_builder) (- 4) (- 2)"
  using empty_phrase_skipped_silently [of example_builder "[]" "[[''a'', ''b'']]" "[[''c'']]" "- 4" "- 2"]
  by simp

text \<open>
  Claim C6 as stated fails: for the list holding only the empty phrase the log is empty,
  whereas a phrase with an unknown word leaves a warning.
\<close>

theorem empty_phrase_no_diagnostic:
  "those (map (word_to_int example_builder) []) = Some [] \<and>
   gen_initial_graph [[]] (word_to_int example_builder) (- 3) 0 =
     ([], Inr \<lparr>start = Some 0, states = [\<lparr>final_weight = None, arcs = []\<rparr>]\<rparr>) \<and>
   fst (gen_initial_graph [[''xyz'']] (word_to_int example_builder) (- 3) 0) = [([''xyz''], [''xyz''])]"
  by (simp add: gen_initial_graph_eq start_graph_def example_builder_def)

text \<open>
  Claim C10. After a successful construction the table file has rows for \<^verbatim>\<open><eps>\<close> and
  \<^verbatim>\<open>#0\<close>, but the lookup table has neither. A phrase that holds one of the two symbols
  is therefore out of vocabulary: it adds a warning to the log and nothing to the
  automaton or to the finished graph.
\<close>

theorem reserved_symbols_out_of_vocabulary:
  assumes "builder_init (Inr rows) = Inr self"
    and "''<eps>'' \<in> set p \<or> ''#0'' \<in> set p"
  shows "''<eps>'' \<in> fst ` set rows \<and> ''#0'' \<in> fst ` set rows \<and>
         word_to_int self ''<eps>'' = None \<and> word_to_int self ''#0'' = None \<and>
         \<not> in_vocabulary (word_to_int self) p \<and>
         gen_initial_graph (ps @ p # qs) (word_to_int self) wd pd =
           (fst (gen_initial_graph ps (word_to_int self) wd pd)
              @ (filter (\<lambda>w. word_to_int self w = None) p, p)
              # fst (gen_initial_graph qs (word_to_int self) wd pd),
            snd (gen_initial_graph (ps @ qs) (word_to_int self) wd pd)) \<and>
         snd (lattice_boosting_graph determinize self (ps @ p # qs) wd pd) =
           snd (lattice_boosting_graph determinize self (ps @ qs) wd pd)"
proof -
  note r = builder_init_reserved [OF assms(1)]
  have oov: "\<not> in_vocabulary (word_to_int self) p"
    using assms(2) r(3,4) by (auto simp: in_vocabulary_def list_all_iff)
  note g = gen_initial_graph_insert_oov [OF oov, of ps qs wd pd]
  have "snd (gen_initial_graph (ps @ p # qs) (word_to_int self) wd pd) =
        snd (gen_initial_graph (ps @ qs) (word_to_int self) wd pd)"
    using g by simp
  from lattice_boosting_graph_cong [OF this] show ?thesis using r(1-4) oov g by blast
qed

theorem reserved_symbols_out_of_vocabulary_witness:
  "gen_initial_graph ([] @ [''a'', ''#0''] # [[''a'', ''b'']]) (word_to_int example_builder) (- 4) (- 2) =
     ([([''#0''], [''a'', ''#0''])],
      snd (gen_initial_graph [[''a'', ''b'']] (word_to_int example_builder) (- 4) (- 2)))"
  using reserved_symbols_out_of_vocabulary
    [OF builder_init_example, of "[''a'', ''#0'']" "[]" "[[''a'', ''b'']]" "- 4" "- 2"]
  by (simp add: gen_initial_graph_eq example_builder_def)

section \<open>Invariants of the finished boosting graph\<close>

text \<open>
  The three theorems of this section hold for every function \<open>determinize\<close> whose result,
  on the raw automaton, has a start state that is one of its states
  (\<open>has_start\<close>). The second and the third also need that every label pair of the result
  occurs in the raw automaton (\<open>label_pairs\<close>), and that no two rows of the vocabulary
  table share an id and \<^verbatim>\<open><eps>\<close> has id 0 (\<open>valid_table\<close>): otherwise a boosted word could
  carry the label 0 or the label of \<^verbatim>\<open>#0\<close>.
\<close>

text \<open>
  Claim C2. The call returns a graph; in it the start state is the only final state, and
  its final weight is zero.
\<close>

theorem single_final_state:
  assumes "snd (gen_initial_graph boosted_phrases (word_to_int self) wd pd) = Inr raw"
    and "has_start (determinize raw)"
  shows "\<exists>g s_start. snd (lattice_boosting_graph determinize self boosted_phrases wd pd) = Inr g \<and>
     start g = Some s_start \<and> s_start < num_states g \<and>
     (\<forall>s<num_states g. final_weight (states g ! s) = (if s = s_start then Some 0 else None)) \<and>
     filter (\<lambda>s. final_weight (states g ! s) \<noteq> None) [0..<num_states g] = [s_start]"
proof -
  from assms(2) obtain s0 where
    s0: "start (determinize raw) = Some s0" "s0 < length (states (determinize raw))"
    by (auto simp: has_start_def num_states_def split: option.splits)
  from lattice_boosting_graph_spec [where determinize = determinize, OF assms(1) s0] obtain g where
    g: "snd (lattice_boosting_graph determinize self boosted_phrases wd pd) = Inr g"
       "start g = Some s0" "length (states g) = length (states (determinize raw))"
       "\<forall>t<length (states (determinize raw)). states g ! t =
        (if t = s0
         then \<lparr>final_weight = Some 0,
               arcs = arcs (states (determinize raw) ! t) @ [rho_arc (rho_int self) s0]\<rparr>
         else \<lparr>final_weight = None,
               arcs = arcs (states (determinize raw) ! t) @ [eps_arc s0]\<rparr>)"
    by blast
  have fw: "\<forall>s<num_states g. final_weight (states g ! s) = (if s = s0 then Some 0 else None)"
    using g(3,4) by (simp add: num_states_def)
  have "filter (\<lambda>s. final_weight (states g ! s) \<noteq> None) [0..<num_states g] =
        filter (\<lambda>s. s = s0) [0..<num_states g]"
    using fw by (intro filter_cong) auto
  then have "filter (\<lambda>s. final_weight (states g ! s) \<noteq> None) [0..<num_states g] = [s0]"
    using filter_upt_eq [of s0 "num_states g"] s0(2) g(3) by (simp add: num_states_def)
  then show ?thesis using g(1,2,3) s0(2) fw by (auto simp: num_states_def)
qed

theorem single_final_state_witness:
  "\<exists>g s_start. snd (lattice_boosting_graph (\<lambda>f. f) example_builder [[''a'', ''b'']] (- 4) (- 2)) = Inr g \<and>
     start g = Some s_start \<and> s_start < num_states g \<and>
     (\<forall>s<num_states g. final_weight (states g ! s) = (if s = s_start then Some 0 else None)) \<and>
     filter (\<lambda>s. final_weight (states g ! s) \<noteq> None) [0..<num_states g] = [s_start]"
  using single_final_state [of "[[''a'', ''b'']]" example_builder "- 4" "- 2" example_raw "\<lambda>f. f"]
  by (simp add: gen_initial_graph_example example_raw_facts)





section \<open>No phrase accepted\<close>

text \<open>
  Claim C9, as amended. When every phrase is skipped (also when there is none), the raw
  automaton is the start state alone, with no arc and no final state. The rewrite still
  runs: whenever the determinized automaton has a start state, the returned graph has
  that state final with weight zero and with the wildcard self-loop on it; when the
  determinization leaves the one-state automaton as it is, the returned graph is exactly
  that one state.
\<close>

theorem all_phrases_dropped:
  assumes "\<forall>p\<in>set boosted_phrases. \<not> in_vocabulary (word_to_int self) p \<or> p = []"
    and "has_start (determinize \<lparr>start = Some 0, states = [\<lparr>final_weight = None, arcs = []\<rparr>]\<rparr>)"
  shows "snd (gen_initial_graph boosted_phrases (word_to_int self) wd pd) =
           Inr \<lparr>start = Some 0, states = [\<lparr>final_weight = None, arcs = []\<rparr>]\<rparr> \<and>
         (\<exists>g s_start. snd (lattice_boosting_graph determinize self boosted_phrases wd pd) = Inr g \<and>
            start g = Some s_start \<and> s_start < num_states g \<and>
            final_weight (states g ! s_start) = Some 0 \<and>
            \<lparr>ilabel = rho_int self, olabel = rho_int self, weight = 0, nextstate = s_start\<rparr>
              \<in> set (arcs (states g ! s_start))) \<and>
         (determinize \<lparr>start = Some 0, states = [\<lparr>final_weight = None, arcs = []\<rparr>]\<rparr> =
            \<lparr>start = Some 0, states = [\<lparr>final_weight = None, arcs = []\<rparr>]\<rparr> \<longrightarrow>
          snd (lattice_boosting_graph determinize self boosted_phrases wd pd) =
            Inr \<lparr>start = Some 0,
                 states = [\<lparr>final_weight = Some 0,
                            arcs = [\<lparr>ilabel = rho_int self, olabel = rho_int self, weight = 0,
                                     nextstate = 0\<rparr>]\<rparr>]\<rparr>)"
proof -
  let ?one = "\<lparr>start = Some 0, states = [\<lparr>final_weight = None, arcs = []\<rparr>]\<rparr>"
  let ?d = "determinize ?one"
  have raw: "snd (gen_initial_graph boosted_phrases (word_to_int self) wd pd) = Inr ?one"
    using accepted_ids_dropped [OF assms(1)] by (simp add: gen_initial_graph_eq start_graph_def)
  from assms(2) obtain s0 where s0: "start ?d = Some s0" "s0 < length (states ?d)"
    by (auto simp: has_start_def num_states_def split: option.splits)
  from lattice_boosting_graph_spec [where determinize = determinize, OF raw s0] obtain g where
    g: "snd (lattice_boosting_graph determinize self boosted_phrases wd pd) = Inr g"
       "start g = Some s0" "length (states g) = length (states ?d)"
       "\<forall>t<length (states ?d). states g ! t =
        (if t = s0
         then \<lparr>final_weight = Some 0, arcs = arcs (states ?d ! t) @ [rho_arc (rho_int self) s0]\<rparr>
         else \<lparr>final_weight = None, arcs = arcs (states ?d ! t) @ [eps_arc s0]\<rparr>)"
    by blast
  have at: "states g ! s0 =
      \<lparr>final_weight = Some 0, arcs = arcs (states ?d ! s0) @ [rho_arc (rho_int self) s0]\<rparr>"
    using g(4) s0(2) by simp
  have b: "\<exists>g s_start. snd (lattice_boosting_graph determinize self boosted_phrases wd pd) = Inr g \<and>
            start g = Some s_start \<and> s_start < num_states g \<and>
            final_weight (states g ! s_start) = Some 0 \<and>
            \<lparr>ilabel = rho_int self, olabel = rho_int self, weight = 0, nextstate = s_start\<rparr>
              \<in> set (arcs (states g ! s_start))"
    using g(1,2,3) s0(2) at by (auto simp: rho_arc_def num_states_def)
  have c: "snd (lattice_boosting_graph determinize self boosted_phrases wd pd) =
            Inr \<lparr>start = Some 0,
                 states = [\<lparr>final_weight = Some 0,
                            arcs = [\<lparr>ilabel = rho_int self, olabel = rho_int self, weight = 0,
                                     nextstate = 0\<rparr>]\<rparr>]\<rparr>"
    if same: "?d = ?one"
  proof -
    have "s0 = 0" using s0(1) same by simp
    then have "g = \<lparr>start = Some 0,
                 states = [\<lparr>final_weight = Some 0,
                            arcs = [\<lparr>ilabel = rho_int self, olabel = rho_int self, weight = 0,
                                     nextstate = 0\<rparr>]\<rparr>]\<rparr>"
      using g(2,3) at same by (intro vector_fst_single) (simp_all add: rho_arc_def)
    then show ?thesis using g(1) by simp
  qed
  show ?thesis using raw b c by blast
qed

theorem all_phrases_dropped_witness:
  "snd (lattice_boosting_graph (\<lambda>f. f) example_builder [[''xyz''], []] (- 3) 0) =
     Inr \<lparr>start = Some 0,
          states = [\<lparr>final_weight = Some 0,
                     arcs = [\<lparr>ilabel = rho_int example_builder, olabel = rho_int example_builder,
                              weight = 0, nextstate = 0\<rparr>]\<rparr>]\<rparr>"
  using all_phrases_dropped [of "[[''xyz''], []]" example_builder "\<lambda>f. f" "- 3" 0]
  by (simp add: in_vocabulary_def example_builder_def has_start_def num_states_def)

text \<open>
  Claim C9 as stated fails in its last part: with two skipped phrases the raw automaton
  is the bare start state, and the returned graph has a final start state with the
  wildcard self-loop.
\<close>

theorem all_phrases_dropped_graph:
  "snd (gen_initial_graph [[''xyz''], []] (word_to_int example_builder) (- 3) 0) =
     Inr \<lparr>start = Some 0, states = [\<lparr>final_weight = None, arcs = []\<rparr>]\<rparr> \<and>
   lattice_boosting_graph (\<lambda>f. f) example_builder [[''xyz''], []] (- 3) 0 =
     ([([''xyz''], [''xyz''])],
      Inr \<lparr>start = Some 0,
           states = [\<lparr>final_weight = Some 0,
                      arcs = [\<lparr>ilabel = 4, olabel = 4, weight = 0, nextstate = 0\<rparr>]\<rparr>]\<rparr>)"
  by (simp add: lattice_boosting_graph_def gen_initial_graph_eq start_graph_def
        example_builder_def num_states_def set_final_def add_arc_def)

section \<open>The raw automaton is a bundle of disjoint chains\<close>



section \<open>Where the discount of a phrase sits\<close>




end
